theory Spec2Isabelle
  imports Main "HOL-Library.AList"
begin

section \<open>EasyXML: the node store\<close>

text \<open>
  The program is one Python class, \<^verbatim>\<open>EasyXML\<close> (src/easyxml.py). Its objects refer to each
  other (\<^verbatim>\<open>_parent\<close>, \<^verbatim>\<open>_elements\<close>, \<^verbatim>\<open>_element_map\<close>) and are compared by identity, so
  the model keeps them in an explicit store: a list of nodes, an object being its index.
  Creating an object appends to the store. The attribute values are of any type \<open>'v\<close>.
  A Python dict is an association list with distinct keys in insertion order
  (\<open>AList.update\<close> overwrites in place or appends).
\<close>

record 'v node =
  parent :: "nat option"
  name :: string
  elements :: "nat list"
  attributes :: "(string \<times> 'v) list"
  element_map :: "(string \<times> nat) list"

type_synonym 'v heap = "'v node list"

datatype error = AttributeError | TypeError

text \<open>\<^verbatim>\<open>__init__(self, name)\<close>, lines 54-65: the five fields of a new object.\<close>

definition init :: "string \<Rightarrow> 'v node" where
  "init nm = \<lparr>parent = None, name = nm, elements = [], attributes = [], element_map = []\<rparr>"

text \<open>
  The call \<^verbatim>\<open>EasyXML(nm, **kwargs)\<close>: the signature of \<^verbatim>\<open>__init__\<close> has the one
  parameter \<^verbatim>\<open>name\<close> and no \<^verbatim>\<open>**kwargs\<close>, so Python raises TypeError for any keyword
  given besides the positional name.
\<close>

definition construct :: "string \<Rightarrow> (string \<times> 'v) list \<Rightarrow> error + 'v node" where
  "construct nm kwargs = (if kwargs = [] then Inr (init nm) else Inl TypeError)"

text \<open>\<^verbatim>\<open>str.startswith\<close>.\<close>

definition startswith :: "string \<Rightarrow> string \<Rightarrow> bool" where
  "startswith s p = (take (length p) s = p)"

text \<open>
  \<^verbatim>\<open>__getattr__(self, name)\<close>, lines 67-81. Python calls it only when ordinary lookup has
  found no attribute of that name. \<^verbatim>\<open>object\<close> has no \<^verbatim>\<open>__getattr__\<close>, so the first branch
  raises AttributeError. The result is the object returned and the store after the call.
\<close>

definition getattr :: "'v heap \<Rightarrow> nat \<Rightarrow> string \<Rightarrow> (error + nat) \<times> 'v heap" where
  "getattr h self nm =
     (if startswith nm ''_'' then (Inl AttributeError, h)
      else case map_of (element_map (h ! self)) nm of
             Some e \<Rightarrow> (Inr e, h)
           | None \<Rightarrow> (Inr (length h), h @ [(init nm)\<lparr>parent := Some self\<rparr>]))"

text \<open>The body of the loop of \<^verbatim>\<open>__call__\<close>, lines 118-119, for \<open>e\<close> with parent \<open>p\<close>.\<close>

definition attach_step :: "'v heap \<Rightarrow> nat \<Rightarrow> nat \<Rightarrow> 'v heap" where
  "attach_step h e p =
     h[p := (h ! p)\<lparr>elements := elements (h ! p) @ [e],
                    element_map := AList.update (name (h ! e)) e (element_map (h ! p))\<rparr>]"

text \<open>
  The loop of \<^verbatim>\<open>__call__\<close>, lines 117-120. An object is true, \<^verbatim>\<open>None\<close> is false;
  \<^verbatim>\<open>in ... .values()\<close> compares by identity. A loop that does not end is the value \<open>None\<close>.
\<close>

partial_function (option) attach :: "'v heap \<Rightarrow> nat \<Rightarrow> 'v heap option" where
  "attach h e =
     (case parent (h ! e) of
        None \<Rightarrow> Some h
      | Some p \<Rightarrow>
          if e \<in> set (map snd (element_map (h ! p))) then Some h
          else attach (attach_step h e p) p)"

declare attach.simps [code]

text \<open>The same loop cut off after \<open>n\<close> runs of its body: \<open>None\<close> when it wants more.\<close>

fun attach_upto :: "nat \<Rightarrow> 'v heap \<Rightarrow> nat \<Rightarrow> 'v heap option" where
  "attach_upto n h e =
     (case parent (h ! e) of
        None \<Rightarrow> Some h
      | Some p \<Rightarrow>
          if e \<in> set (map snd (element_map (h ! p))) then Some h
          else (case n of 0 \<Rightarrow> None | Suc m \<Rightarrow> attach_upto m (attach_step h e p) p))"

declare attach_upto.simps [simp del]

text \<open>The object \<open>e\<close> that \<^verbatim>\<open>__call__\<close> creates, lines 114-116.\<close>

definition fresh :: "'v heap \<Rightarrow> nat \<Rightarrow> (string \<times> 'v) list \<Rightarrow> 'v node" where
  "fresh h self kwargs =
     \<lparr>parent = parent (h ! self), name = name (h ! self), elements = [],
      attributes = kwargs, element_map = []\<rparr>"

text \<open>The body of \<^verbatim>\<open>__call__\<close>, lines 114-120, once its arguments are bound.\<close>

definition call_body :: "'v heap \<Rightarrow> nat \<Rightarrow> (string \<times> 'v) list \<Rightarrow> 'v heap option" where
  "call_body h self kwargs = attach (h @ [fresh h self kwargs]) (length h)"

definition call_body_upto ::
  "nat \<Rightarrow> 'v heap \<Rightarrow> nat \<Rightarrow> (string \<times> 'v) list \<Rightarrow> 'v heap option" where
  "call_body_upto n h self kwargs = attach_upto n (h @ [fresh h self kwargs]) (length h)"

text \<open>
  \<^verbatim>\<open>__call__(self, **kwargs)\<close>, lines 83-120, called as \<^verbatim>\<open>node(**kwargs)\<close>. The object is
  bound to the parameter \<^verbatim>\<open>self\<close>, so a mapping that has the key \<^verbatim>\<open>self\<close> gives that
  parameter a second value: Python raises TypeError before the body runs. Every other
  mapping becomes \<^verbatim>\<open>kwargs\<close>. \<open>None\<close>: the call does not return.
\<close>

definition call ::
  "'v heap \<Rightarrow> nat \<Rightarrow> (string \<times> 'v) list \<Rightarrow> (error + 'v heap) option" where
  "call h self kwargs =
     (if ''self'' \<in> fst ` set kwargs then Some (Inl TypeError)
      else map_option Inr (call_body h self kwargs))"

text \<open>The same call with its loop cut off after \<open>n\<close> runs of the body.\<close>

definition call_upto ::
  "nat \<Rightarrow> 'v heap \<Rightarrow> nat \<Rightarrow> (string \<times> 'v) list \<Rightarrow> (error + 'v heap) option" where
  "call_upto n h self kwargs =
     (if ''self'' \<in> fst ` set kwargs then Some (Inl TypeError)
      else map_option Inr (call_body_upto n h self kwargs))"

section \<open>Serialisation to a document tree\<close>

text \<open>
  The element tree that \<^verbatim>\<open>to_xml\<close> builds with the document library
  (\<^verbatim>\<open>createElement\<close>, \<^verbatim>\<open>setAttribute\<close>, \<^verbatim>\<open>appendChild\<close>): a tag name, the attributes
  in the order they were set, the children in the order they were appended.
\<close>

datatype element = Element string "(string \<times> string) list" "element list"

text \<open>
  Lines 128-129: for each key of the dict in its order, \<^verbatim>\<open>setAttribute(k, str(d[k]))\<close>;
  \<open>str\<close> is Python's \<^verbatim>\<open>str\<close> on the values.
\<close>

definition set_attributes :: "('v \<Rightarrow> string) \<Rightarrow> (string \<times> 'v) list \<Rightarrow> (string \<times> string) list" where
  "set_attributes str d =
     fold (\<lambda>k acc. case map_of d k of None \<Rightarrow> acc | Some v \<Rightarrow> AList.update k (str v) acc)
       (map fst d) []"

text \<open>
  \<^verbatim>\<open>to_xml(obj)\<close>, lines 126-132. The recursion follows \<^verbatim>\<open>_elements\<close> and does not end on a
  cyclic store, so it carries fuel: \<open>None\<close> when the nesting is deeper than the fuel.
\<close>

fun to_xml :: "('v \<Rightarrow> string) \<Rightarrow> nat \<Rightarrow> 'v heap \<Rightarrow> nat \<Rightarrow> element option" where
  "to_xml str 0 h obj = None"
| "to_xml str (Suc fuel) h obj =
     (case those (map (to_xml str fuel h) (elements (h ! obj))) of
        None \<Rightarrow> None
      | Some cs \<Rightarrow>
          Some (Element (name (h ! obj)) (set_attributes str (attributes (h ! obj))) cs))"

text \<open>
  The document tree of \<^verbatim>\<open>__str__\<close>, lines 134-135. A store of \<open>n\<close> objects nests deeper
  than \<open>n\<close> only along a cycle, so \<open>length h\<close> is fuel enough whenever the recursion ends.
\<close>

definition document :: "('v \<Rightarrow> string) \<Rightarrow> 'v heap \<Rightarrow> nat \<Rightarrow> element option" where
  "document str h self = to_xml str (length h) h self"

section \<open>Client statements\<close>

text \<open>
  A chain of attribute accesses \<^verbatim>\<open>node.a.b.c\<close>: the first error ends it. The names are
  child names, which ordinary lookup does not find, so every access is a call of
  \<^verbatim>\<open>__getattr__\<close>; the statements about \<open>resolve\<close> take names that do not begin with an
  underscore.
\<close>

fun resolve :: "'v heap \<Rightarrow> nat \<Rightarrow> string list \<Rightarrow> (error + nat) \<times> 'v heap" where
  "resolve h n [] = (Inr n, h)"
| "resolve h n (nm # nms) =
     (case getattr h n nm of
        (Inl err, h') \<Rightarrow> (Inl err, h')
      | (Inr c, h') \<Rightarrow> resolve h' c nms)"

text \<open>
  The statement \<^verbatim>\<open>node.a.b.c(**kwargs)\<close>: an error of an access or of the call ends it.
  \<open>None\<close>: the call does not return.
\<close>

definition commit_path ::
  "'v heap \<Rightarrow> nat \<Rightarrow> string list \<Rightarrow> (string \<times> 'v) list \<Rightarrow> (error + 'v heap) option" where
  "commit_path h n path kwargs =
     (case resolve h n path of
        (Inl err, h') \<Rightarrow> Some (Inl err)
      | (Inr c, h') \<Rightarrow> call h' c kwargs)"

text \<open>A sequence of such statements on the same node.\<close>

fun commits ::
  "'v heap \<Rightarrow> nat \<Rightarrow> (string list \<times> (string \<times> 'v) list) list \<Rightarrow> (error + 'v heap) option" where
  "commits h n [] = Some (Inr h)"
| "commits h n ((path, kwargs) # rest) =
     (case commit_path h n path kwargs of
        Some (Inr h') \<Rightarrow> commits h' n rest
      | other \<Rightarrow> other)"

text \<open>Attribute values for the examples: Python integers and strings, and \<^verbatim>\<open>str\<close> on them.\<close>

datatype pyval = PyInt int | PyStr string

fun decimal :: "nat \<Rightarrow> string" where
  "decimal n =
     (if n < 10 then [''0123456789'' ! n]
      else decimal (n div 10) @ [''0123456789'' ! (n mod 10)])"

declare decimal.simps [simp del]

fun py_str :: "pyval \<Rightarrow> string" where
  "py_str (PyInt i) = (if i < 0 then CHR ''-'' # decimal (nat (- i)) else decimal (nat i))"
| "py_str (PyStr s) = s"

section \<open>Reachable stores and their invariant\<close>

text \<open>
  The stores a client can produce from a fresh root with child accesses and calls. The
  client may hold any object it was handed, so an operation may address any object of the
  store.
\<close>

inductive reachable :: "'v heap \<Rightarrow> bool" where
  root: "reachable [init r]"
| access: "reachable h \<Longrightarrow> n < length h \<Longrightarrow> reachable (snd (getattr h n nm))"
| commit: "reachable h \<Longrightarrow> n < length h \<Longrightarrow> call h n kwargs = Some (Inr h') \<Longrightarrow> reachable h'"

text \<open>The element of a children list appended last among those with a given name.\<close>

definition newest :: "'v heap \<Rightarrow> string \<Rightarrow> nat list \<Rightarrow> nat option" where
  "newest h nm es = find (\<lambda>e. name (h ! e) = nm) (rev es)"

text \<open>
  The invariant of every reachable store: a parent is an older object; a children list
  holds objects of the store whose parent is the list's owner; the name-indexed map holds,
  for each name, the newest child of that name.
\<close>

definition wf :: "'v heap \<Rightarrow> bool" where
  "wf h \<longleftrightarrow>
     (\<forall>e < length h.
        (\<forall>p. parent (h ! e) = Some p \<longrightarrow> p < e) \<and>
        (\<forall>c \<in> set (elements (h ! e)). c < length h \<and> parent (h ! c) = Some e) \<and>
        (\<forall>nm. map_of (element_map (h ! e)) nm = newest h nm (elements (h ! e))) \<and>
        distinct (map fst (element_map (h ! e))))"

text \<open>The number of parent links from an object up to a parentless one.\<close>

fun chain :: "'v heap \<Rightarrow> nat \<Rightarrow> nat \<Rightarrow> bool" where
  "chain h 0 e = (e < length h \<and> parent (h ! e) = None)"
| "chain h (Suc k) e =
     (e < length h \<and> (case parent (h ! e) of None \<Rightarrow> False | Some p \<Rightarrow> chain h k p))"

text \<open>What the attach loop never changes: the size of the store, parents, names, attributes.\<close>

definition same_frame :: "'v heap \<Rightarrow> 'v heap \<Rightarrow> bool" where
  "same_frame h' h \<longleftrightarrow> length h' = length h \<and>
     (\<forall>i. parent (h' ! i) = parent (h ! i) \<and> name (h' ! i) = name (h ! i) \<and>
          attributes (h' ! i) = attributes (h ! i))"

section \<open>Definitions for the claims\<close>

text \<open>
  What an attribute access \<^verbatim>\<open>node.nm\<close> can yield: a child object (from \<^verbatim>\<open>__getattr__\<close>),
  one of the five fields that \<^verbatim>\<open>__init__\<close> sets, or an attribute of the class.
\<close>

datatype 'v attr =
    Child nat
  | FParent "nat option"
  | FName string
  | FElements "nat list"
  | FAttributes "(string \<times> 'v) list"
  | FElementMap "(string \<times> nat) list"
  | ClassAttr string

text \<open>The instance dictionary: the fields assigned at lines 61-65.\<close>

definition instance_dict :: "'v node \<Rightarrow> string \<Rightarrow> 'v attr option" where
  "instance_dict n nm =
     (if nm = ''_parent'' then Some (FParent (parent n))
      else if nm = ''_name'' then Some (FName (name n))
      else if nm = ''_elements'' then Some (FElements (elements n))
      else if nm = ''_attributes'' then Some (FAttributes (attributes n))
      else if nm = ''_element_map'' then Some (FElementMap (element_map n))
      else None)"

text \<open>The names the class statement itself binds, lines 25-136.\<close>

definition class_dict :: "string list" where
  "class_dict = [''__module__'', ''__doc__'', ''__init__'', ''__getattr__'', ''__call__'', ''__str__'']"

text \<open>
  Python's attribute access: the instance dictionary first, then the class (\<open>cls\<close> tells
  which names the class and the interpreter provide), and \<^verbatim>\<open>__getattr__\<close> only when both
  have failed.
\<close>

definition getattribute ::
  "(string \<Rightarrow> bool) \<Rightarrow> 'v heap \<Rightarrow> nat \<Rightarrow> string \<Rightarrow> (error + 'v attr) \<times> 'v heap" where
  "getattribute cls h self nm =
     (case instance_dict (h ! self) nm of
        Some v \<Rightarrow> (Inr v, h)
      | None \<Rightarrow>
          if cls nm then (Inr (ClassAttr nm), h)
          else (case getattr h self nm of
                  (Inl err, h') \<Rightarrow> (Inl err, h')
                | (Inr c, h') \<Rightarrow> (Inr (Child c), h')))"

text \<open>The objects whose children list holds \<open>e\<close>.\<close>

definition owners :: "'v heap \<Rightarrow> nat \<Rightarrow> nat list" where
  "owners h e = filter (\<lambda>p. e \<in> set (elements (h ! p))) [0..<length h]"

text \<open>Whether some name-indexed map holds \<open>e\<close> as a value.\<close>

definition in_some_map :: "'v heap \<Rightarrow> nat \<Rightarrow> bool" where
  "in_some_map h e = list_ex (\<lambda>n. e \<in> set (map snd (element_map n))) h"

text \<open>An uncommitted cursor: in no children list and in no name-indexed map.\<close>

definition uncommitted :: "'v heap \<Rightarrow> nat \<Rightarrow> bool" where
  "uncommitted h e \<longleftrightarrow> owners h e = [] \<and> \<not> in_some_map h e"

text \<open>A committed node as C5 words it: in the children list of exactly one object, and the
  value stored under its own name in the map of that object.\<close>

definition committed :: "'v heap \<Rightarrow> nat \<Rightarrow> bool" where
  "committed h e \<longleftrightarrow>
     (case owners h e of
        [p] \<Rightarrow> map_of (element_map (h ! p)) (name (h ! e)) = Some e
      | _ \<Rightarrow> False)"

text \<open>In the children list of exactly one object, and that object is its parent.\<close>

definition attached :: "'v heap \<Rightarrow> nat \<Rightarrow> bool" where
  "attached h e \<longleftrightarrow> (case parent (h ! e) of None \<Rightarrow> False | Some p \<Rightarrow> owners h e = [p])"

text \<open>Every entry of a name-indexed map is an object of the same node's children list, stored
  under its own name.\<close>

definition maps_within_children :: "'v heap \<Rightarrow> bool" where
  "maps_within_children h \<longleftrightarrow>
     list_all (\<lambda>n. list_all (\<lambda>(nm, c). c \<in> set (elements n) \<and> name (h ! c) = nm) (element_map n)) h"

text \<open>The statements \<^verbatim>\<open>root.a.b.c(x=1)\<close> and \<^verbatim>\<open>root.a.b.c(x=2)\<close>.\<close>

definition two_commits :: "(string list \<times> (string \<times> pyval) list) list" where
  "two_commits =
     [([''a'', ''b'', ''c''], [(''x'', PyInt 1)]), ([''a'', ''b'', ''c''], [(''x'', PyInt 2)])]"

text \<open>The store they leave on a fresh root named \<open>root\<close>: objects 0, 1, 2 are the root,
  \<open>a\<close> and \<open>b\<close>; 3 is the cursor \<open>c\<close> of the first statement, never attached; 4 and 5
  are the two committed \<open>c\<close>.\<close>

definition two_commits_store :: "pyval heap" where
  "two_commits_store =
     [\<lparr>parent = None, name = ''root'', elements = [1], attributes = [], element_map = [(''a'', 1)]\<rparr>,
      \<lparr>parent = Some 0, name = ''a'', elements = [2], attributes = [], element_map = [(''b'', 2)]\<rparr>,
      \<lparr>parent = Some 1, name = ''b'', elements = [4, 5], attributes = [],
         element_map = [(''c'', 5)]\<rparr>,
      \<lparr>parent = Some 2, name = ''c'', elements = [], attributes = [], element_map = []\<rparr>,
      \<lparr>parent = Some 2, name = ''c'', elements = [], attributes = [(''x'', PyInt 1)],
         element_map = []\<rparr>,
      \<lparr>parent = Some 2, name = ''c'', elements = [], attributes = [(''x'', PyInt 2)],
         element_map = []\<rparr>]"








section \<open>Serialisation to text\<close>

text \<open>The characters written as escapes in Python source: the line feed and the double quote.\<close>

definition newline :: char where "newline = CHR 0x0A"
definition dquote :: char where "dquote = CHR 0x22"

text \<open>Modelled from the spec: the markup library (\<^verbatim>\<open>xml.dom.minidom\<close>, not part of the
  repository), which sections 4.3 and 6 of the specification describe as writing a start
  tag with the name and all attributes, the children, then an end tag or the self-closing
  form, indented and newline-separated. The definitions follow the library's
  \<^verbatim>\<open>Element.writexml\<close> as of Python 3.8, which writes the attributes in the order they were
  set. \<open>esc\<close> is the library's escaping of attribute values, a parameter here.\<close>

definition write_attribute :: "(string \<Rightarrow> string) \<Rightarrow> string \<times> string \<Rightarrow> string" where
  "write_attribute esc a = '' '' @ fst a @ ''='' @ [dquote] @ esc (snd a) @ [dquote]"

text \<open>\<^verbatim>\<open>writexml(writer, indent, addindent='  ', newl='\n')\<close> of an element.\<close>

fun writexml :: "(string \<Rightarrow> string) \<Rightarrow> string \<Rightarrow> element \<Rightarrow> string" where
  "writexml esc indent (Element tag attrs cs) =
     indent @ ''<'' @ tag @ concat (map (write_attribute esc) attrs) @
     (if cs = [] then ''/>'' @ [newline]
      else ''>'' @ [newline] @ concat (map (writexml esc (indent @ ''  '')) cs) @
           indent @ ''</'' @ tag @ ''>'' @ [newline])"

text \<open>The header line the library writes before the root element.\<close>

definition xml_header :: string where
  "xml_header = ''<?xml version='' @ [dquote] @ ''1.0'' @ [dquote] @ '' ?>''"

text \<open>\<^verbatim>\<open>doc.toprettyxml(indent='  ')\<close> of the document whose only child is the element.\<close>

definition toprettyxml :: "(string \<Rightarrow> string) \<Rightarrow> element \<Rightarrow> string" where
  "toprettyxml esc t = xml_header @ [newline] @ writexml esc [] t"

text \<open>Line 136, \<^verbatim>\<open>re.sub(r'<\?xml.*\?>', '', s)\<close>. The pattern matches the five characters
  \<^verbatim>\<open><?xml\<close>, then as many characters other than a line feed as possible, then \<^verbatim>\<open>?>\<close>.
  \<open>pi_end l\<close> is where the last \<^verbatim>\<open>?>\<close> of \<open>l\<close> ends, if there is one.\<close>

fun pi_end :: "string \<Rightarrow> nat option" where
  "pi_end (c # d # s) =
     (case pi_end (d # s) of
        Some n \<Rightarrow> Some (Suc n)
      | None \<Rightarrow> if c = CHR ''?'' \<and> d = CHR ''>'' then Some 2 else None)"
| "pi_end s = None"

text \<open>Every match is removed, leftmost first, the search going on after each match.\<close>

fun re_sub :: "string \<Rightarrow> string" where
  "re_sub [] = []"
| "re_sub (c # s) =
     (if take 5 (c # s) = ''<?xml'' then
        (case pi_end (takeWhile (\<lambda>x. x \<noteq> newline) (drop 5 (c # s))) of
           Some n \<Rightarrow> re_sub (drop (5 + n) (c # s))
         | None \<Rightarrow> c # re_sub s)
      else c # re_sub s)"

text \<open>
  \<^verbatim>\<open>str.strip()\<close>: whitespace is removed at both ends. A character here is a code point
  below 256; these are the ones for which \<^verbatim>\<open>str.isspace\<close> holds.
\<close>

definition isspace :: "char \<Rightarrow> bool" where
  "isspace c \<longleftrightarrow> c \<in> set [CHR '' '', CHR 0x09, CHR 0x0A, CHR 0x0B, CHR 0x0C, CHR 0x0D,
                            CHR 0x1C, CHR 0x1D, CHR 0x1E, CHR 0x1F, CHR 0x85, CHR 0xA0]"

definition strip :: "string \<Rightarrow> string" where
  "strip s = rev (dropWhile isspace (rev (dropWhile isspace s)))"

text \<open>\<^verbatim>\<open>__str__(self)\<close>, lines 122-136.\<close>

definition easyxml_str :: "(string \<Rightarrow> string) \<Rightarrow> ('v \<Rightarrow> string) \<Rightarrow> 'v heap \<Rightarrow> nat \<Rightarrow> string option" where
  "easyxml_str esc str h self =
     map_option (\<lambda>t. strip (re_sub (toprettyxml esc t))) (document str h self)"

text \<open>An escaping for the examples: the library's \<^verbatim>\<open>_write_data\<close> of Python 3.8 to 3.12, which
  replaces \<^verbatim>\<open>&\<close>, \<^verbatim>\<open><\<close>, the double quote and \<^verbatim>\<open>>\<close>.\<close>

definition escape_char :: "char \<Rightarrow> string" where
  "escape_char c =
     (if c = CHR ''&'' then ''&amp;''
      else if c = CHR ''<'' then ''&lt;''
      else if c = dquote then ''&quot;''
      else if c = CHR ''>'' then ''&gt;''
      else [c])"

definition write_data :: "string \<Rightarrow> string" where
  "write_data s = concat (map escape_char s)"

text \<open>The rendering that C6 describes, in the specification's words: for each node a start
  tag with its name and all attributes, then its children in order, then an end tag, or
  the self-closing form when there are no children; one line each, indented two spaces
  for each level of nesting; the lines joined by line feeds.\<close>

definition open_tag :: "(string \<Rightarrow> string) \<Rightarrow> string \<Rightarrow> (string \<times> string) list \<Rightarrow> string" where
  "open_tag esc tag attrs = ''<'' @ tag @ concat (map (write_attribute esc) attrs)"

fun layout_lines :: "(string \<Rightarrow> string) \<Rightarrow> nat \<Rightarrow> element \<Rightarrow> string list" where
  "layout_lines esc d (Element tag attrs cs) =
     (if cs = [] then [replicate (2 * d) CHR '' '' @ open_tag esc tag attrs @ ''/>'']
      else [replicate (2 * d) CHR '' '' @ open_tag esc tag attrs @ ''>''] @
           concat (map (layout_lines esc (Suc d)) cs) @
           [replicate (2 * d) CHR '' '' @ ''</'' @ tag @ ''>''])"

fun join_lines :: "string list \<Rightarrow> string" where
  "join_lines [] = []"
| "join_lines [l] = l"
| "join_lines (l # ls) = l @ newline # join_lines ls"

definition layout :: "(string \<Rightarrow> string) \<Rightarrow> element \<Rightarrow> string" where
  "layout esc t = join_lines (layout_lines esc 0 t)"

text \<open>Names that cannot be taken for a processing instruction: no \<^verbatim>\<open><\<close> in a tag name or an
  attribute key, and no tag name that begins with \<^verbatim>\<open>?\<close>.\<close>

fun clean :: "element \<Rightarrow> bool" where
  "clean (Element tag attrs cs) \<longleftrightarrow>
     CHR ''<'' \<notin> set tag \<and> take 1 tag \<noteq> ''?'' \<and>
     list_all (\<lambda>a. CHR ''<'' \<notin> set (fst a)) attrs \<and> list_all clean cs"

text \<open>Each line followed by a line feed, as the writer produces them.\<close>

definition unlines :: "string list \<Rightarrow> string" where
  "unlines ls = concat (map (\<lambda>l. l @ [newline]) ls)"

text \<open>A text in which no \<^verbatim>\<open><\<close> is followed by \<^verbatim>\<open>?\<close>, and a text that begins with \<^verbatim>\<open>?\<close>.\<close>

fun no_pi :: "string \<Rightarrow> bool" where
  "no_pi (c # d # s) \<longleftrightarrow> \<not> (c = CHR ''<'' \<and> d = CHR ''?'') \<and> no_pi (d # s)"
| "no_pi s \<longleftrightarrow> True"

definition starts_q :: "string \<Rightarrow> bool" where
  "starts_q s \<longleftrightarrow> take 1 s = ''?''"




section \<open>The invariant is kept\<close>

lemma newest_snoc:
  "newest h nm (es @ [e]) = (if name (h ! e) = nm then Some e else newest h nm es)"
  by (simp add: newest_def)

lemma newest_SomeD: "newest h nm es = Some e \<Longrightarrow> e \<in> set es \<and> name (h ! e) = nm"
  by (induction es rule: rev_induct) (auto simp: newest_snoc split: if_splits, simp add: newest_def)

lemma newest_cong:
  "(\<And>e. e \<in> set es \<Longrightarrow> name (h' ! e) = name (h ! e)) \<Longrightarrow> newest h' nm es = newest h nm es"
  unfolding newest_def by (rule find_cong) auto

lemma wf_root: "wf [init r]"
  by (simp add: wf_def init_def newest_def)

lemma wf_append:
  assumes "wf h" "\<And>p. parent x = Some p \<Longrightarrow> p < length h" "elements x = []" "element_map x = []"
  shows "wf (h @ [x])"
  unfolding wf_def
proof (intro allI impI)
  fix e assume e: "e < length (h @ [x])"
  show "(\<forall>p. parent ((h @ [x]) ! e) = Some p \<longrightarrow> p < e) \<and>
        (\<forall>c \<in> set (elements ((h @ [x]) ! e)). c < length (h @ [x]) \<and> parent ((h @ [x]) ! c) = Some e) \<and>
        (\<forall>nm. map_of (element_map ((h @ [x]) ! e)) nm = newest (h @ [x]) nm (elements ((h @ [x]) ! e))) \<and>
        distinct (map fst (element_map ((h @ [x]) ! e)))"
  proof (cases "e < length h")
    case True
    with assms(1) have old: "\<forall>p. parent (h ! e) = Some p \<longrightarrow> p < e"
      "\<forall>c \<in> set (elements (h ! e)). c < length h \<and> parent (h ! c) = Some e"
      "\<forall>nm. map_of (element_map (h ! e)) nm = newest h nm (elements (h ! e))"
      "distinct (map fst (element_map (h ! e)))"
      by (auto simp: wf_def)
    have "newest (h @ [x]) nm (elements (h ! e)) = newest h nm (elements (h ! e))" for nm
      by (rule newest_cong) (use old(2) in \<open>simp add: nth_append\<close>)
    with True old show ?thesis by (auto simp: nth_append)
  next
    case False
    with e have "e = length h" by simp
    with assms(2-4) show ?thesis by (simp add: newest_def)
  qed
qed

lemma wf_attach_step:
  assumes "wf h" "e < length h" "parent (h ! e) = Some p"
  shows "wf (attach_step h e p)"
proof -
  from assms have pe: "p < e" by (auto simp: wf_def)
  with assms have pl: "p < length h" by simp
  let ?h = "attach_step h e p"
  have len: "length ?h = length h" by (simp add: attach_step_def)
  have nm: "name (?h ! i) = name (h ! i)" for i
    by (cases "i = p") (use pl in \<open>auto simp: attach_step_def\<close>)
  have par: "parent (?h ! i) = parent (h ! i)" for i
    by (cases "i = p") (use pl in \<open>auto simp: attach_step_def\<close>)
  have oth: "i \<noteq> p \<Longrightarrow> ?h ! i = h ! i" for i
    by (simp add: attach_step_def)
  have elp: "elements (?h ! p) = elements (h ! p) @ [e]"
    using pl by (simp add: attach_step_def)
  have mapp: "element_map (?h ! p) = AList.update (name (h ! e)) e (element_map (h ! p))"
    using pl by (simp add: attach_step_def)
  have nw: "newest ?h n es = newest h n es" for n es
    by (rule newest_cong) (simp add: nm)
  show ?thesis
    unfolding wf_def len
  proof (intro allI impI)
    fix i assume i: "i < length h"
    with assms(1) have old: "\<forall>q. parent (h ! i) = Some q \<longrightarrow> q < i"
      "\<forall>c \<in> set (elements (h ! i)). c < length h \<and> parent (h ! c) = Some i"
      "\<forall>nm. map_of (element_map (h ! i)) nm = newest h nm (elements (h ! i))"
      "distinct (map fst (element_map (h ! i)))"
      by (auto simp: wf_def)
    show "(\<forall>q. parent (?h ! i) = Some q \<longrightarrow> q < i) \<and>
        (\<forall>c \<in> set (elements (?h ! i)). c < length h \<and> parent (?h ! c) = Some i) \<and>
        (\<forall>nm. map_of (element_map (?h ! i)) nm = newest ?h nm (elements (?h ! i))) \<and>
        distinct (map fst (element_map (?h ! i)))"
    proof (cases "i = p")
      case True
      show ?thesis
        using old assms(2,3) unfolding True
        by (auto simp: par nw nm elp mapp update_conv' newest_snoc distinct_update)
    next
      case False
      then show ?thesis using old by (simp add: oth par nw)
    qed
  qed
qed

lemma attach_step_length [simp]: "length (attach_step h e p) = length h"
  by (simp add: attach_step_def)

lemma attach_step_frame:
  "parent (attach_step h e p ! i) = parent (h ! i)"
  "name (attach_step h e p ! i) = name (h ! i)"
  "attributes (attach_step h e p ! i) = attributes (h ! i)"
proof -
  have "attach_step h e p ! i = h ! i \<or>
        attach_step h e p ! i =
          (h ! i)\<lparr>elements := elements (h ! i) @ [e],
                   element_map := AList.update (name (h ! e)) e (element_map (h ! i))\<rparr>"
    by (cases "p < length h") (auto simp: attach_step_def nth_list_update list_update_beyond)
  then show "parent (attach_step h e p ! i) = parent (h ! i)"
    "name (attach_step h e p ! i) = name (h ! i)"
    "attributes (attach_step h e p ! i) = attributes (h ! i)"
    by auto
qed

lemma same_frame_refl: "same_frame h h"
  by (simp add: same_frame_def)

lemma same_frame_step: "same_frame h' (attach_step h e p) \<Longrightarrow> same_frame h' h"
  by (simp add: same_frame_def attach_step_frame)

lemma attach_wf:
  "wf h \<Longrightarrow> e < length h \<Longrightarrow> \<exists>h'. attach h e = Some h' \<and> wf h' \<and> same_frame h' h"
proof (induction e arbitrary: h rule: less_induct)
  case (less e)
  show ?case
  proof (cases "parent (h ! e)")
    case None
    then have "attach h e = Some h" by (subst attach.simps) simp
    with less.prems show ?thesis by (simp add: same_frame_refl)
  next
    case (Some p)
    show ?thesis
    proof (cases "e \<in> set (map snd (element_map (h ! p)))")
      case True
      with Some have "attach h e = Some h" by (subst attach.simps) simp
      with less.prems show ?thesis by (simp add: same_frame_refl)
    next
      case False
      from less.prems Some have pe: "p < e" by (simp add: wf_def)
      have w: "wf (attach_step h e p)" using less.prems Some by (rule wf_attach_step)
      have l: "p < length (attach_step h e p)" using pe less.prems by simp
      from less.IH [OF pe w l] obtain h' where
        h': "attach (attach_step h e p) p = Some h'" "wf h'" "same_frame h' (attach_step h e p)"
        by blast
      have "attach h e = Some h'"
        using Some False h'(1) by (subst attach.simps) simp
      with h'(2) same_frame_step [OF h'(3)] show ?thesis by simp
    qed
  qed
qed

lemma wf_getattr: "wf h \<Longrightarrow> n < length h \<Longrightarrow> wf (snd (getattr h n nm))"
  by (auto simp: getattr_def init_def intro!: wf_append split: option.splits)

lemma call_wf:
  assumes "wf h" "n < length h"
  shows "\<exists>h'. call_body h n kwargs = Some h' \<and> wf h' \<and> same_frame h' (h @ [fresh h n kwargs])"
proof -
  have "\<And>p. parent (h ! n) = Some p \<Longrightarrow> p < length h"
    using assms by (fastforce simp: wf_def)
  then have "wf (h @ [fresh h n kwargs])"
    using assms(1) by (intro wf_append) (simp_all add: fresh_def)
  from attach_wf [OF this, of "length h"] show ?thesis
    by (simp add: call_body_def)
qed

lemma call_Inr:
  "call h n kwargs = Some (Inr h') \<longleftrightarrow>
   ''self'' \<notin> fst ` set kwargs \<and> call_body h n kwargs = Some h'"
  by (auto simp: call_def)


lemma reachable_wf: "reachable h \<Longrightarrow> wf h"
proof (induction rule: reachable.induct)
  case (root r)
  show ?case by (rule wf_root)
next
  case (access h n nm)
  then show ?case by (simp add: wf_getattr)
next
  case (commit h n kwargs h')
  with call_wf [of h n kwargs] show ?case by (auto simp: call_Inr)
qed

lemma chain_attach_step: "chain (attach_step h e p) k x = chain h k x"
  by (induction k arbitrary: x) (simp_all add: attach_step_frame split: option.splits)

lemma chain_attach_upto: "chain h k e \<Longrightarrow> \<exists>h'. attach_upto k h e = Some h'"
proof (induction k arbitrary: h e)
  case 0
  then show ?case by (simp add: attach_upto.simps)
next
  case (Suc k)
  then obtain p where p: "parent (h ! e) = Some p" "chain h k p"
    by (auto split: option.splits)
  from p(2) have "chain (attach_step h e p) k p" by (simp add: chain_attach_step)
  from Suc.IH [OF this] p(1) show ?case
    by (subst attach_upto.simps) auto
qed

lemma attach_upto_attach: "attach_upto n h e = Some h' \<Longrightarrow> attach h e = Some h'"
proof (induction n arbitrary: h e)
  case 0
  then show ?case
    by (subst attach.simps, subst (asm) attach_upto.simps) (auto split: option.splits if_splits)
next
  case (Suc n)
  show ?case
  proof (cases "parent (h ! e)")
    case None
    with Suc.prems show ?thesis
      by (subst attach.simps, subst (asm) attach_upto.simps) simp
  next
    case (Some p)
    show ?thesis
    proof (cases "e \<in> set (map snd (element_map (h ! p)))")
      case True
      with Some Suc.prems show ?thesis
        by (subst attach.simps, subst (asm) attach_upto.simps) simp
    next
      case False
      with Some Suc.prems have "attach_upto n (attach_step h e p) p = Some h'"
        by (subst (asm) attach_upto.simps) simp
      from Suc.IH [OF this] Some False show ?thesis
        by (subst attach.simps) simp
    qed
  qed
qed

lemma chain_append: "chain h k e \<Longrightarrow> chain (h @ [x]) k e"
  by (induction k arbitrary: e) (auto simp: nth_append split: option.splits)

lemma chain_fresh:
  "chain h k self \<Longrightarrow> chain (h @ [fresh h self kwargs]) k (length h)"
  by (cases k) (auto simp: fresh_def chain_append split: option.splits)

lemma wf_chain: "wf h \<Longrightarrow> e < length h \<Longrightarrow> \<exists>k\<le>e. chain h k e"
proof (induction e rule: less_induct)
  case (less e)
  show ?case
  proof (cases "parent (h ! e)")
    case None
    with less.prems have "chain h 0 e" by simp
    then show ?thesis by blast
  next
    case (Some p)
    with less.prems have pe: "p < e" by (auto simp: wf_def)
    with less obtain k where "k \<le> p" "chain h k p" by fastforce
    with Some less.prems pe have "Suc k \<le> e" "chain h (Suc k) e" by auto
    then show ?thesis by blast
  qed
qed

section \<open>Commit on a parentless node\<close>

text \<open>
  C4, as the code has it. Invoking a node whose parent is none leaves every existing node
  as it was, whatever the attribute mapping. The call succeeds for every mapping without
  the key \<^verbatim>\<open>self\<close>: the store only gains the new, unattached object. For a mapping with
  the key \<^verbatim>\<open>self\<close> the call raises TypeError.
\<close>

theorem call_parentless_is_noop:
  "self < length h \<Longrightarrow> parent (h ! self) = None \<Longrightarrow>
   call h self kwargs =
     (if ''self'' \<in> fst ` set kwargs then Some (Inl TypeError)
      else Some (Inr (h @ [fresh h self kwargs]))) \<and>
   (\<forall>i < length h. (h @ [fresh h self kwargs]) ! i = h ! i) \<and>
   parent (fresh h self kwargs) = None \<and> elements (fresh h self kwargs) = []"
  by (simp add: call_def call_body_def attach.simps fresh_def nth_append)

theorem call_parentless_is_noop_witness:
  "(0::nat) < length [init ''root'' :: pyval node] \<and>
   parent ([init ''root'' :: pyval node] ! 0) = None \<and>
   call [init ''root''] 0 [(''x'', PyInt 1)]
     = Some (Inr ([init ''root''] @ [fresh [init ''root''] 0 [(''x'', PyInt 1)]]))"
  using call_parentless_is_noop [of 0 "[init ''root'' :: pyval node]" "[(''x'', PyInt 1)]"]
  by (simp add: init_def)

text \<open>
  C4 as stated fails: on the bare root the call \<^verbatim>\<open>root(**{'self': 1})\<close> does not succeed.
\<close>

theorem call_parentless_self_counterexample:
  "call [init ''root''] 0 [(''self'', PyInt 1)] = Some (Inl TypeError)"
  by (simp add: call_def)

section \<open>Two commits of one path\<close>


section \<open>Termination of a commit\<close>

text \<open>
  C10. When the parent chain of a node ends after \<open>k\<close> links at a parentless node, a call
  on it returns, and its loop runs its body at most \<open>k\<close> times (with a new store unless
  the mapping has the key \<^verbatim>\<open>self\<close>, which raises TypeError before the loop). Every
  object of a store reachable from a fresh root has such a chain.
\<close>

theorem commit_terminates:
  "(chain h k self \<longrightarrow>
      (\<exists>res. call_upto k h self kwargs = Some res \<and> call h self kwargs = Some res \<and>
             (''self'' \<notin> fst ` set kwargs \<longrightarrow> (\<exists>h'. res = Inr h')))) \<and>
   (reachable h \<and> self < length h \<longrightarrow> (\<exists>k\<le>self. chain h k self))"
proof (intro conjI impI)
  assume "chain h k self"
  then have "chain (h @ [fresh h self kwargs]) k (length h)" by (rule chain_fresh)
  then obtain h' where h': "attach_upto k (h @ [fresh h self kwargs]) (length h) = Some h'"
    using chain_attach_upto by blast
  then have "attach (h @ [fresh h self kwargs]) (length h) = Some h'"
    by (rule attach_upto_attach)
  with h' show "\<exists>res. call_upto k h self kwargs = Some res \<and> call h self kwargs = Some res \<and>
             (''self'' \<notin> fst ` set kwargs \<longrightarrow> (\<exists>h'. res = Inr h'))"
    by (simp add: call_upto_def call_def call_body_def call_body_upto_def)
next
  assume "reachable h \<and> self < length h"
  then show "\<exists>k\<le>self. chain h k self"
    by (simp add: reachable_wf wf_chain)
qed

theorem commit_terminates_witness:
  "chain (snd (getattr (snd (getattr [init ''root'' :: pyval node] 0 ''a'')) 1 ''b'')) 2 2 \<and>
   (\<exists>h'. call_upto 2 (snd (getattr (snd (getattr [init ''root'' :: pyval node] 0 ''a'')) 1 ''b''))
            2 [] = Some (Inr h') \<and>
         call (snd (getattr (snd (getattr [init ''root'' :: pyval node] 0 ''a'')) 1 ''b''))
            2 [] = Some (Inr h')) \<and>
   reachable (snd (getattr (snd (getattr [init ''root'' :: pyval node] 0 ''a'')) 1 ''b'')) \<and>
   (\<exists>k\<le>2. chain (snd (getattr (snd (getattr [init ''root'' :: pyval node] 0 ''a'')) 1 ''b'')) k 2)"
proof -
  let ?h = "snd (getattr (snd (getattr [init ''root'' :: pyval node] 0 ''a'')) 1 ''b'')"
  have c: "chain ?h 2 2"
    by (simp add: getattr_def startswith_def init_def eval_nat_numeral)
  have "reachable (snd (getattr [init ''root'' :: pyval node] 0 ''a''))"
    by (rule reachable.access [OF reachable.root]) simp
  then have r: "reachable ?h"
    by (rule reachable.access) (simp add: getattr_def startswith_def init_def)
  have l: "2 < length ?h"
    by (simp add: getattr_def startswith_def init_def)
  from commit_terminates [of ?h 2 2 "[]"] c
  have "\<exists>h'. call_upto 2 ?h 2 [] = Some (Inr h') \<and> call ?h 2 [] = Some (Inr h')"
    by auto
  moreover from commit_terminates [of ?h 2 2 "[]"] r l have "\<exists>k\<le>2. chain ?h k 2"
    by blast
  ultimately show ?thesis using c r by blast
qed

section \<open>Construction\<close>

text \<open>
  C7. The constructor is documented to set its keyword arguments as attributes of the new
  element, but its signature takes none: \<^verbatim>\<open>EasyXML('books', title='Example A')\<close> raises
  TypeError and no node is made.
\<close>

theorem construct_rejects_keywords:
  "construct ''books'' [(''title'', PyStr ''Example A'')] = (Inl TypeError :: error + pyval node)"
  by (simp add: construct_def)

section \<open>Names with the underscore prefix\<close>

text \<open>
  C8, as the code has it. For a name that begins with an underscore, \<^verbatim>\<open>__getattr__\<close> raises
  AttributeError without reading or changing the store; so the access never yields a
  child and leaves the store as it was. It yields the node's own field when the name is
  one of the five fields, and raises AttributeError when neither the node nor the class
  has the name.
\<close>

theorem underscore_access:
  "startswith nm ''_'' \<Longrightarrow>
   getattr h self nm = (Inl AttributeError, h) \<and>
   snd (getattribute cls h self nm) = h \<and>
   (\<forall>c. fst (getattribute cls h self nm) \<noteq> Inr (Child c)) \<and>
   (\<forall>v. instance_dict (h ! self) nm = Some v \<longrightarrow> fst (getattribute cls h self nm) = Inr v) \<and>
   (instance_dict (h ! self) nm = None \<and> \<not> cls nm \<longrightarrow>
      fst (getattribute cls h self nm) = Inl AttributeError)"
  by (auto simp: getattribute_def getattr_def instance_dict_def split: option.splits)

theorem underscore_access_witness:
  "startswith ''_name'' ''_'' \<and>
   getattr [init ''root'' :: pyval node] 0 ''_name'' = (Inl AttributeError, [init ''root'']) \<and>
   getattribute (\<lambda>n. n \<in> set class_dict) [init ''root'' :: pyval node] 0 ''_name''
     = (Inr (FName ''root''), [init ''root''])"
  using underscore_access [of "''_name''" "[init ''root'' :: pyval node]" 0 "\<lambda>n. n \<in> set class_dict"]
  by (simp add: startswith_def getattribute_def instance_dict_def init_def)

text \<open>
  C8 as stated fails: \<^verbatim>\<open>root._foo\<close> does not resolve to internal state, it raises.
\<close>

theorem underscore_access_counterexample:
  "getattribute (\<lambda>n. n \<in> set class_dict) [init ''root'' :: pyval node] 0 ''_foo''
     = (Inl AttributeError, [init ''root''])"
  by (simp add: getattribute_def instance_dict_def getattr_def startswith_def class_dict_def init_def)

section \<open>Facts about reachable stores\<close>

lemma filter_eq_upt: "p < n \<Longrightarrow> filter (\<lambda>q. q = p) [0..<n] = [p]"
proof (induction n)
  case 0
  then show ?case by simp
next
  case (Suc n)
  show ?case
  proof (cases "p = n")
    case True
    have "filter (\<lambda>q. q = n) [0..<n] = []"
      by (simp add: filter_empty_conv)
    with True show ?thesis by simp
  next
    case False
    with Suc show ?thesis by simp
  qed
qed

lemma filter_upt_single:
  assumes "p < n" "P p" "\<And>q. q < n \<Longrightarrow> P q \<Longrightarrow> q = p"
  shows "filter P [0..<n] = [p]"
proof -
  have "P q = (q = p)" if "q \<in> set [0..<n]" for q
    using that assms(2,3) by fastforce
  then have "filter P [0..<n] = filter (\<lambda>q. q = p) [0..<n]"
    by (rule filter_cong [OF refl])
  with assms(1) show ?thesis by (simp add: filter_eq_upt)
qed

lemma wf_map_entry:
  assumes "wf h" "p < length h" "(nm, c) \<in> set (element_map (h ! p))"
  shows "c \<in> set (elements (h ! p)) \<and> name (h ! c) = nm"
proof -
  from assms have "distinct (map fst (element_map (h ! p)))" by (simp add: wf_def)
  with assms(3) have "map_of (element_map (h ! p)) nm = Some c" by simp
  with assms(1,2) have "newest h nm (elements (h ! p)) = Some c" by (simp add: wf_def)
  then show ?thesis by (rule newest_SomeD)
qed

lemma wf_owner:
  assumes "wf h" "q < length h" "e \<in> set (elements (h ! q))"
  shows "parent (h ! e) = Some q"
  using assms by (simp add: wf_def)

lemma wf_attached:
  assumes "wf h" "owners h e \<noteq> []"
  shows "attached h e"
proof -
  from assms(2) obtain q where q: "q < length h" "e \<in> set (elements (h ! q))"
    by (auto simp: owners_def filter_empty_conv)
  then have par: "parent (h ! e) = Some q" using assms(1) by (simp add: wf_owner)
  have "owners h e = [q]"
    unfolding owners_def
  proof (rule filter_upt_single)
    fix r assume "r < length h" "e \<in> set (elements (h ! r))"
    then have "parent (h ! e) = Some r" using assms(1) by (simp add: wf_owner)
    with par show "r = q" by simp
  qed (use q in auto)
  with par show ?thesis by (simp add: attached_def)
qed

lemma wf_uncommitted:
  assumes "wf h" "owners h e = []"
  shows "uncommitted h e"
proof -
  have "\<not> in_some_map h e"
  proof
    assume "in_some_map h e"
    then obtain n where n: "n \<in> set h" "e \<in> snd ` set (element_map n)"
      by (auto simp: in_some_map_def list_ex_iff)
    from n(1) obtain p where "p < length h" "n = h ! p"
      by (auto simp: in_set_conv_nth)
    with n(2) obtain nm where p: "p < length h" "(nm, e) \<in> set (element_map (h ! p))"
      by auto
    with assms(1) have "e \<in> set (elements (h ! p))" by (simp add: wf_map_entry)
    with p(1) have "p \<in> set (owners h e)" by (simp add: owners_def)
    with assms(2) show False by simp
  qed
  with assms(2) show ?thesis by (simp add: uncommitted_def)
qed

lemma wf_maps_within_children:
  assumes "wf h"
  shows "maps_within_children h"
  unfolding maps_within_children_def list_all_iff
proof (intro ballI)
  fix n x assume n: "n \<in> set h" and x: "x \<in> set (element_map n)"
  from n obtain p where p: "p < length h" "n = h ! p"
    by (auto simp: in_set_conv_nth)
  obtain nm c where nc: "x = (nm, c)" by (cases x)
  from wf_map_entry [OF assms p(1), of nm c] x p(2) nc
  show "case x of (nm, c) \<Rightarrow> c \<in> set (elements n) \<and> name (h ! c) = nm"
    by simp
qed

lemma wf_elements_bound:
  "wf h \<Longrightarrow> p < length h \<Longrightarrow> c \<in> set (elements (h ! p)) \<Longrightarrow> c < length h"
  by (simp add: wf_def)

lemma wf_map_of:
  assumes "wf h" "p < length h" "map_of (element_map (h ! p)) nm = Some c"
  shows "c \<in> set (elements (h ! p))" "name (h ! c) = nm" "c < length h" "parent (h ! c) = Some p"
    "p < c"
proof -
  from assms(3) have "(nm, c) \<in> set (element_map (h ! p))" by (rule map_of_SomeD)
  with assms(1,2) show c: "c \<in> set (elements (h ! p))" and "name (h ! c) = nm"
    by (simp_all add: wf_map_entry)
  with assms(1,2) show l: "c < length h" by (simp add: wf_elements_bound)
  from c assms(1,2) show par: "parent (h ! c) = Some p" by (simp add: wf_owner)
  from assms(1) l par show "p < c" by (simp add: wf_def)
qed

lemma wf_values_bound:
  assumes "wf h" "p < length h" "c \<in> set (map snd (element_map (h ! p)))"
  shows "c < length h"
proof -
  from assms(3) obtain nm where "(nm, c) \<in> set (element_map (h ! p))" by auto
  with assms(1,2) have "c \<in> set (elements (h ! p))" by (simp add: wf_map_entry)
  with assms(1,2) show ?thesis by (simp add: wf_elements_bound)
qed

lemma getattr_result:
  assumes "wf h" "n < length h" "getattr h n nm = (Inr c, h')"
  shows "c < length h'" "length h \<le> length h'"
  using assms wf_map_of(3) [of h n nm]
  by (auto simp: getattr_def split: if_splits option.splits)

lemma resolve_reachable:
  "reachable h \<Longrightarrow> n < length h \<Longrightarrow> resolve h n path = (Inr c, h') \<Longrightarrow>
   reachable h' \<and> c < length h' \<and> length h \<le> length h'"
proof (induction path arbitrary: h n)
  case Nil
  then show ?case by simp
next
  case (Cons nm path)
  show ?case
  proof (cases "getattr h n nm")
    case (Pair res h1)
    show ?thesis
    proof (cases res)
      case (Inl err)
      with Pair Cons.prems show ?thesis by simp
    next
      case (Inr d)
      from Cons.prems(1,2) have r1: "reachable (snd (getattr h n nm))" by (rule reachable.access)
      with Pair have r: "reachable h1" by simp
      from Cons.prems(1) have "wf h" by (rule reachable_wf)
      from getattr_result [OF this Cons.prems(2)] Pair Inr
      have d: "d < length h1" "length h \<le> length h1" by simp_all
      from Cons.prems(3) Pair Inr have "resolve h1 d path = (Inr c, h')" by simp
      from Cons.IH [OF r d(1) this] d(2) show ?thesis by simp
    qed
  qed
qed

lemma call_length:
  assumes "wf h" "n < length h" "call_body h n kwargs = Some h'"
  shows "length h' = Suc (length h)"
  using call_wf [OF assms(1,2), of kwargs] assms(3) by (auto simp: same_frame_def)

lemma commit_path_reachable:
  assumes "reachable h" "n < length h" "commit_path h n path kwargs = Some (Inr h')"
  shows "reachable h' \<and> length h \<le> length h'"
proof (cases "resolve h n path")
  case (Pair res h1)
  show ?thesis
  proof (cases res)
    case (Inl err)
    with Pair assms(3) show ?thesis by (simp add: commit_path_def)
  next
    case (Inr c)
    from resolve_reachable [OF assms(1,2)] Pair Inr
    have r: "reachable h1" "c < length h1" "length h \<le> length h1" by simp_all
    from assms(3) Pair Inr have c: "call h1 c kwargs = Some (Inr h')"
      by (auto simp: commit_path_def)
    then have b: "call_body h1 c kwargs = Some h'" by (simp add: call_Inr)
    from r(1,2) c have "reachable h'" by (rule reachable.commit)
    moreover from call_length [OF reachable_wf [OF r(1)] r(2) b] r(3) have "length h \<le> length h'"
      by simp
    ultimately show ?thesis by simp
  qed
qed

lemma commits_reachable:
  "reachable h \<Longrightarrow> n < length h \<Longrightarrow> commits h n cs = Some (Inr h') \<Longrightarrow> reachable h'"
proof (induction cs arbitrary: h)
  case Nil
  then show ?case by simp
next
  case (Cons c cs)
  obtain path kwargs where c: "c = (path, kwargs)" by (cases c)
  from Cons.prems(3) c obtain h1 where
    h1: "commit_path h n path kwargs = Some (Inr h1)" "commits h1 n cs = Some (Inr h')"
    by (auto split: option.splits sum.splits)
  from commit_path_reachable [OF Cons.prems(1,2) h1(1)]
  have "reachable h1" "n < length h1" using Cons.prems(2) by auto
  from Cons.IH [OF this h1(2)] show ?case .
qed

lemma two_commits_run: "commits [init ''root''] 0 two_commits = Some (Inr two_commits_store)"
  by (simp add: two_commits_def two_commits_store_def commit_path_def getattr_def startswith_def
      init_def call_def call_body_def fresh_def attach.simps attach_step_def)

lemma two_commits_reachable: "reachable two_commits_store"
  by (rule commits_reachable [OF reachable.root _ two_commits_run]) simp

lemma upt6: "[0..<6] = [0, 1, 2, 3, 4, 5]"
  by (simp add: upt_rec)

lemma attach_once:
  assumes "parent (H ! x) = Some e" "x \<notin> set (map snd (element_map (H ! e)))"
    "parent (H ! e) = Some p" "p \<noteq> e" "e \<in> set (map snd (element_map (H ! p)))"
  shows "attach H x = Some (attach_step H x e)"
proof -
  have "H[e := y] ! p = H ! p" for y using assms(4) by simp
  then have p: "attach_step H x e ! p = H ! p" by (simp add: attach_step_def)
  have "attach (attach_step H x e) e = Some (attach_step H x e)"
    using assms(3,5) p by (subst attach.simps) (simp add: attach_step_frame)
  with assms(1,2) show ?thesis by (subst attach.simps) simp
qed

section \<open>Cursors and committed nodes\<close>

text \<open>
  C5, as the code has it. In every store reachable from a fresh root, every object is
  either in no children list and no name-indexed map, or in the children list of exactly
  one object, which is its parent; and every entry of a name-indexed map is an object of
  the same node's children list, stored under its own name. (A child is not always the
  entry of its name: a later sibling of the same name takes the entry over.)
\<close>

theorem node_is_cursor_or_attached:
  "reachable h \<Longrightarrow> e < length h \<Longrightarrow>
   (uncommitted h e \<or> attached h e) \<and> maps_within_children h"
proof -
  assume "reachable h"
  then have w: "wf h" by (rule reachable_wf)
  have "uncommitted h e \<or> attached h e"
    by (cases "owners h e = []") (simp_all add: w wf_uncommitted wf_attached)
  with w show ?thesis by (simp add: wf_maps_within_children)
qed

theorem node_is_cursor_or_attached_witness:
  "reachable two_commits_store \<and> 4 < length two_commits_store \<and>
   attached two_commits_store 4 \<and> maps_within_children two_commits_store"
proof -
  have l: "4 < length two_commits_store" by (simp add: two_commits_store_def)
  have "\<not> uncommitted two_commits_store 4"
    by (simp add: two_commits_store_def uncommitted_def owners_def upt6)
  with node_is_cursor_or_attached [OF two_commits_reachable l] two_commits_reachable l
  show ?thesis by simp
qed

text \<open>
  C5 as stated fails: after \<^verbatim>\<open>root.a.b.c(x=1)\<close> and \<^verbatim>\<open>root.a.b.c(x=2)\<close> the first \<open>c\<close>
  (object 4) is in the children list of \<open>b\<close>, but the map of \<open>b\<close> holds the second \<open>c\<close>
  under that name; so object 4 is neither an uncommitted cursor nor committed in the
  claim's sense.
\<close>

theorem superseded_sibling_counterexample:
  "commits [init ''root''] 0 two_commits = Some (Inr two_commits_store) \<and>
   \<not> uncommitted two_commits_store 4 \<and> \<not> committed two_commits_store 4"
  by (simp add: two_commits_run)
     (simp add: two_commits_store_def uncommitted_def committed_def owners_def upt6)

section \<open>The map holds the newest child of each name\<close>

text \<open>
  C9. In every store reachable from a fresh root, the entry of a name in a node's map is
  the element of that node's children list appended last among those of that name; a
  child access for the name returns it and changes nothing; and a commit of a sub-path
  through that name returns and appends its new node to the children of that newest
  sibling (unless the mapping has the key \<^verbatim>\<open>self\<close>, which raises TypeError).
\<close>

theorem map_entry_is_newest:
  assumes "reachable h" "p < length h" "map_of (element_map (h ! p)) nm = Some e"
  shows "newest h nm (elements (h ! p)) = Some e \<and>
         (\<not> startswith nm ''_'' \<longrightarrow> getattr h p nm = (Inr e, h)) \<and>
         (\<not> startswith nm ''_'' \<and> \<not> startswith m ''_'' \<longrightarrow>
            (if ''self'' \<in> fst ` set kwargs
             then commit_path h p [nm, m] kwargs = Some (Inl TypeError)
             else (\<exists>h'. commit_path h p [nm, m] kwargs = Some (Inr h') \<and>
                  elements (h' ! e) = elements (h ! e) @ [length h' - 1] \<and>
                  h' ! (length h' - 1) =
                    \<lparr>parent = Some e, name = m, elements = [], attributes = kwargs,
                     element_map = []\<rparr>)))"
proof (intro conjI impI)
  from assms(1) have w: "wf h" by (rule reachable_wf)
  from w assms(2,3) show "newest h nm (elements (h ! p)) = Some e" by (simp add: wf_def)
  show g: "getattr h p nm = (Inr e, h)" if "\<not> startswith nm ''_''"
    using that assms(3) by (simp add: getattr_def)
  note e = wf_map_of [OF w assms(2,3)]
  have ev: "e \<in> set (map snd (element_map (h ! p)))"
    using map_of_SomeD [OF assms(3)] by force
  assume nm: "\<not> startswith nm ''_'' \<and> \<not> startswith m ''_''"
  show "if ''self'' \<in> fst ` set kwargs
        then commit_path h p [nm, m] kwargs = Some (Inl TypeError)
        else (\<exists>h'. commit_path h p [nm, m] kwargs = Some (Inr h') \<and>
                  elements (h' ! e) = elements (h ! e) @ [length h' - 1] \<and>
                  h' ! (length h' - 1) =
                    \<lparr>parent = Some e, name = m, elements = [], attributes = kwargs,
                     element_map = []\<rparr>)"
  proof (cases "map_of (element_map (h ! e)) m")
    case (Some c)
    note c = wf_map_of [OF w e(3) Some]
    let ?f = "\<lparr>parent = Some e, name = m, elements = [], attributes = kwargs, element_map = []\<rparr>"
    let ?H = "h @ [?f]"
    have f: "fresh h c kwargs = ?f" using c by (simp add: fresh_def)
    have r: "resolve h p [nm, m] = (Inr c, h)"
      using nm g Some by (simp add: getattr_def)
    have "length h \<notin> set (map snd (element_map (h ! e)))"
      using wf_values_bound [OF w e(3), of "length h"] by auto
    then have "attach ?H (length h) = Some (attach_step ?H (length h) e)"
      using e ev assms(2) by (intro attach_once [where p = p]) (simp_all add: nth_append)
    then have "commit_path h p [nm, m] kwargs = Some (Inr (attach_step ?H (length h) e))"
      if "''self'' \<notin> fst ` set kwargs"
      using r f that by (simp add: commit_path_def call_def call_body_def)
    moreover have "elements (attach_step ?H (length h) e ! e) = elements (h ! e) @ [length h]"
      using e(3) by (simp add: attach_step_def nth_append)
    moreover have "attach_step ?H (length h) e ! length h = ?f"
      using e(3) by (simp add: attach_step_def)
    moreover have "commit_path h p [nm, m] kwargs = Some (Inl TypeError)"
      if "''self'' \<in> fst ` set kwargs"
      using r that by (simp add: commit_path_def call_def)
    ultimately show ?thesis by simp
  next
    case None
    let ?c = "(init m :: 'a node)\<lparr>parent := Some e\<rparr>"
    let ?f = "\<lparr>parent = Some e, name = m, elements = [], attributes = kwargs, element_map = []\<rparr>"
    let ?H = "h @ [?c, ?f]"
    have f: "fresh (h @ [?c]) (length h) kwargs = ?f" by (simp add: fresh_def init_def)
    have r: "resolve h p [nm, m] = (Inr (length h), h @ [?c])"
      using nm g None by (simp add: getattr_def)
    have "Suc (length h) \<notin> set (map snd (element_map (h ! e)))"
      using wf_values_bound [OF w e(3), of "Suc (length h)"] by auto
    then have "attach ?H (Suc (length h)) = Some (attach_step ?H (Suc (length h)) e)"
      using e ev assms(2) by (intro attach_once [where p = p]) (simp_all add: nth_append)
    then have "commit_path h p [nm, m] kwargs = Some (Inr (attach_step ?H (Suc (length h)) e))"
      if "''self'' \<notin> fst ` set kwargs"
      using r f that by (simp add: commit_path_def call_def call_body_def)
    moreover have "elements (attach_step ?H (Suc (length h)) e ! e) = elements (h ! e) @ [Suc (length h)]"
      using e(3) by (simp add: attach_step_def nth_append)
    moreover have "attach_step ?H (Suc (length h)) e ! Suc (length h) = ?f"
      using e(3) by (simp add: attach_step_def nth_append)
    moreover have "commit_path h p [nm, m] kwargs = Some (Inl TypeError)"
      if "''self'' \<in> fst ` set kwargs"
      using r that by (simp add: commit_path_def call_def)
    ultimately show ?thesis by simp
  qed
qed

theorem map_entry_is_newest_witness:
  "reachable two_commits_store \<and> 2 < length two_commits_store \<and>
   map_of (element_map (two_commits_store ! 2)) ''c'' = Some 5 \<and>
   newest two_commits_store ''c'' (elements (two_commits_store ! 2)) = Some 5 \<and>
   getattr two_commits_store 2 ''c'' = (Inr 5, two_commits_store)"
proof -
  have l: "2 < length two_commits_store" by (simp add: two_commits_store_def)
  have m: "map_of (element_map (two_commits_store ! 2)) ''c'' = Some 5"
    by (simp add: two_commits_store_def)
  have s: "\<not> startswith ''c'' ''_''" by (simp add: startswith_def)
  from map_entry_is_newest [OF two_commits_reachable l m, of "''d''" "[]"] s
    two_commits_reachable l m
  show ?thesis by simp
qed

section \<open>Repeated commits of one path\<close>
























section \<open>The text of a serialised tree\<close>

lemma unlines_append: "unlines (xs @ ys) = unlines xs @ unlines ys"
  by (simp add: unlines_def)

lemma unlines_concat: "unlines (concat xss) = concat (map unlines xss)"
  by (induction xss) (simp_all add: unlines_append, simp add: unlines_def)

lemma unlines_Nil: "unlines [] = []"
  by (simp add: unlines_def)

lemma unlines_Cons: "unlines (l # ls) = l @ newline # unlines ls"
  by (simp add: unlines_def)

lemma unlines_single: "unlines [l] = l @ [newline]"
  by (simp add: unlines_def)

lemma indent_Suc: "replicate (2 * Suc d) c = replicate (2 * d) c @ [c, c]"
proof -
  have "2 * Suc d = 2 * d + 2" by simp
  then have "replicate (2 * Suc d) c = replicate (2 * d) c @ replicate 2 c"
    by (simp only: replicate_add)
  then show ?thesis by (simp add: numeral_2_eq_2)
qed

lemma writexml_unlines:
  "writexml esc (replicate (2 * d) CHR '' '') t = unlines (layout_lines esc d t)"
proof (induction esc d t rule: layout_lines.induct)
  case (1 esc d tag attrs cs)
  show ?case
  proof (cases "cs = []")
    case True
    then show ?thesis by (simp add: unlines_single open_tag_def)
  next
    case False
    have m: "map (writexml esc (replicate (2 * d) CHR '' '' @ ''  '')) cs
        = map (\<lambda>c. unlines (layout_lines esc (Suc d) c)) cs"
      using 1 [OF False] by (simp add: indent_Suc del: replicate_Suc mult_Suc_right)
    have "concat (map (\<lambda>c. unlines (layout_lines esc (Suc d) c)) cs)
        = unlines (concat (map (layout_lines esc (Suc d)) cs))"
      by (simp add: unlines_concat comp_def)
    then have "concat (map (writexml esc (replicate (2 * d) CHR '' '' @ ''  '')) cs)
        = unlines (concat (map (layout_lines esc (Suc d)) cs))"
      by (simp only: m)
    with False show ?thesis
      by (simp add: unlines_append unlines_Nil unlines_Cons unlines_single open_tag_def
          del: replicate_Suc mult_Suc_right)
  qed
qed

lemma unlines_join: "ls \<noteq> [] \<Longrightarrow> unlines ls = join_lines ls @ [newline]"
  by (induction ls rule: join_lines.induct) (simp_all add: unlines_def)

lemma header_stripped: "re_sub (toprettyxml esc t) = newline # re_sub (writexml esc [] t)"
proof -
  obtain tag attrs cs where t: "t = Element tag attrs cs" by (cases t)
  show ?thesis
    by (simp add: toprettyxml_def xml_header_def t newline_def dquote_def)
qed

lemma starts_q_simps [simp]:
  "starts_q [] = False" "starts_q (c # s) = (c = CHR ''?'')"
  by (simp_all add: starts_q_def)

lemma starts_q_append: "starts_q (a @ b) = (if a = [] then starts_q b else starts_q a)"
  by (cases a) simp_all

lemma no_pi_Cons: "no_pi (c # s) \<longleftrightarrow> \<not> (c = CHR ''<'' \<and> starts_q s) \<and> no_pi s"
  by (cases s) auto

lemma re_sub_id: "no_pi s \<Longrightarrow> re_sub s = s"
proof (induction s)
  case Nil
  show ?case by simp
next
  case (Cons c s)
  then have n: "\<not> (c = CHR ''<'' \<and> starts_q s)" and r: "re_sub s = s"
    by (simp_all add: no_pi_Cons)
  from n have t: "take 5 (c # s) \<noteq> ''<?xml''"
    by (cases s) auto
  show ?case by (simp only: re_sub.simps t if_False r)
qed

lemma no_pi_safe_append: "CHR ''<'' \<notin> set a \<Longrightarrow> no_pi (a @ b) = no_pi b"
  by (induction a) (auto simp: no_pi_Cons)

lemma no_pi_safe: "CHR ''<'' \<notin> set a \<Longrightarrow> no_pi a"
  using no_pi_safe_append [of a "[]"] by simp

lemma no_pi_append: "no_pi x \<Longrightarrow> no_pi y \<Longrightarrow> \<not> starts_q y \<Longrightarrow> no_pi (x @ y)"
  by (induction x) (auto simp: no_pi_Cons starts_q_append)

lemma concat_no_q: "(\<And>x. x \<in> set xs \<Longrightarrow> \<not> starts_q x) \<Longrightarrow> \<not> starts_q (concat xs)"
  by (induction xs) (auto simp: starts_q_append)

lemma no_pi_concat:
  "(\<And>x. x \<in> set xs \<Longrightarrow> no_pi x \<and> \<not> starts_q x) \<Longrightarrow> no_pi (concat xs)"
  by (induction xs) (auto intro!: no_pi_append concat_no_q)

lemma attribute_safe:
  assumes "\<And>s. CHR ''<'' \<notin> set (esc s)" "CHR ''<'' \<notin> set (fst a)"
  shows "CHR ''<'' \<notin> set (write_attribute esc a)" "\<not> starts_q (write_attribute esc a)"
  using assms by (simp_all add: write_attribute_def dquote_def)

lemma attributes_safe:
  assumes "\<And>s. CHR ''<'' \<notin> set (esc s)" "list_all (\<lambda>a. CHR ''<'' \<notin> set (fst a)) attrs"
  shows "CHR ''<'' \<notin> set (concat (map (write_attribute esc) attrs))"
    "\<not> starts_q (concat (map (write_attribute esc) attrs))"
proof -
  have "\<And>a. a \<in> set attrs \<Longrightarrow> CHR ''<'' \<notin> set (fst a)"
    using assms(2) by (simp add: list_all_iff)
  then show "CHR ''<'' \<notin> set (concat (map (write_attribute esc) attrs))"
    using attribute_safe(1) [OF assms(1)] by auto
  show "\<not> starts_q (concat (map (write_attribute esc) attrs))"
    by (rule concat_no_q) (auto simp: write_attribute_def)
qed

lemma writexml_no_pi:
  assumes esc: "\<And>s. CHR ''<'' \<notin> set (esc s)"
  shows "clean t \<Longrightarrow> set indent \<subseteq> {CHR '' ''} \<Longrightarrow>
    no_pi (writexml esc indent t) \<and> \<not> starts_q (writexml esc indent t)"
proof (induction t arbitrary: indent)
  case (Element tag attrs cs)
  let ?A = "concat (map (write_attribute esc) attrs)"
  let ?C = "concat (map (writexml esc (indent @ ''  '')) cs)"
  let ?T = "indent @ ''</'' @ tag @ ''>'' @ [newline]"
  let ?R = "if cs = [] then ''/>'' @ [newline] else ''>'' @ [newline] @ ?C @ ?T"
  from Element.prems(1) have tag: "CHR ''<'' \<notin> set tag" "\<not> starts_q tag"
    and attrs: "list_all (\<lambda>a. CHR ''<'' \<notin> set (fst a)) attrs"
    and cs: "\<And>c. c \<in> set cs \<Longrightarrow> clean c"
    by (simp_all add: starts_q_def list_all_iff)
  from Element.prems(2) have ind: "CHR ''<'' \<notin> set indent" "\<not> starts_q indent"
    by (cases indent; auto)+
  note A = attributes_safe [OF esc attrs]
  have nl: "newline \<noteq> CHR ''<''" by (simp add: newline_def)
  have T: "no_pi ?T" "\<not> starts_q ?T"
    using ind tag nl by (simp_all add: no_pi_safe_append no_pi_Cons starts_q_append no_pi_safe)
  have R: "no_pi ?R" "\<not> starts_q ?R"
  proof -
    have C: "no_pi ?C"
    proof (rule no_pi_concat)
      fix x assume "x \<in> set (map (writexml esc (indent @ ''  '')) cs)"
      then obtain c where c: "c \<in> set cs" "x = writexml esc (indent @ ''  '') c" by auto
      have "set (indent @ ''  '') \<subseteq> {CHR '' ''}" using Element.prems(2) by simp
      from Element.IH [OF c(1) cs [OF c(1)] this] c(2)
      show "no_pi x \<and> \<not> starts_q x" by simp
    qed
    from C T have "no_pi (?C @ ?T)" by (rule no_pi_append)
    then show "no_pi ?R" using nl by (simp add: no_pi_Cons no_pi_safe)
    show "\<not> starts_q ?R" by simp
  qed
  have e: "writexml esc indent (Element tag attrs cs) = indent @ CHR ''<'' # (tag @ ?A @ ?R)"
    by simp
  have n: "no_pi (indent @ CHR ''<'' # (tag @ ?A @ ?R))"
    using ind tag A R by (simp add: no_pi_safe_append no_pi_Cons starts_q_append del: append_assoc)
  have q: "\<not> starts_q (indent @ CHR ''<'' # (tag @ ?A @ ?R))"
    using ind by (simp add: starts_q_append)
  show ?case unfolding e using n q by (rule conjI)
qed

lemma strip_lines:
  assumes "J \<noteq> []" "\<not> isspace (hd J)" "\<not> isspace (last J)"
  shows "strip (newline # J @ [newline]) = J"
proof -
  have nl: "isspace newline" by (simp add: isspace_def newline_def)
  from assms(1,2) have "dropWhile isspace (J @ [newline]) = J @ [newline]"
    by (cases J) simp_all
  moreover from assms(1,3) have "dropWhile isspace (rev J) = rev J"
    by (cases "rev J") (simp_all add: last_rev [symmetric] hd_rev)
  ultimately show ?thesis using nl by (simp add: strip_def)
qed

lemma join_lines_hd: "l \<noteq> [] \<Longrightarrow> join_lines (l # ls) \<noteq> [] \<and> hd (join_lines (l # ls)) = hd l"
  by (cases ls) simp_all

lemma join_lines_last:
  "ls \<noteq> [] \<Longrightarrow> last ls \<noteq> [] \<Longrightarrow>
   join_lines ls \<noteq> [] \<and> last (join_lines ls) = last (last ls)"
  by (induction ls rule: join_lines.induct) simp_all

lemma layout_lines_ends:
  "\<exists>l ls. layout_lines esc 0 t = (CHR ''<'' # l) # ls \<and>
          last (layout_lines esc 0 t) \<noteq> [] \<and> last (last (layout_lines esc 0 t)) = CHR ''>''"
  by (cases t) (simp add: open_tag_def)

lemma strip_layout:
  "strip (newline # unlines (layout_lines esc 0 t)) = join_lines (layout_lines esc 0 t)"
proof -
  from layout_lines_ends [of esc t] obtain l ls where
    L: "layout_lines esc 0 t = (CHR ''<'' # l) # ls"
    "last (layout_lines esc 0 t) \<noteq> []" "last (last (layout_lines esc 0 t)) = CHR ''>''"
    by blast
  let ?J = "join_lines (layout_lines esc 0 t)"
  have ne: "layout_lines esc 0 t \<noteq> []" using L(1) by simp
  have "?J \<noteq> []" "hd ?J = CHR ''<''"
    using join_lines_hd [of "CHR ''<'' # l" ls] by (simp_all add: L(1))
  moreover have "last ?J = CHR ''>''"
    using join_lines_last [OF ne L(2)] L(3) by simp
  ultimately have "strip (newline # ?J @ [newline]) = ?J"
    by (intro strip_lines) (simp_all add: isspace_def)
  then show ?thesis by (simp add: unlines_join [OF ne])
qed

lemma pretty_clean:
  assumes "\<And>s. CHR ''<'' \<notin> set (esc s)" "clean t"
  shows "strip (re_sub (toprettyxml esc t)) = layout esc t"
proof -
  have "no_pi (writexml esc [] t)"
    using writexml_no_pi [OF assms(1) assms(2), of "[]"] by simp
  then have "re_sub (writexml esc [] t) = writexml esc [] t" by (rule re_sub_id)
  moreover have "writexml esc [] t = unlines (layout_lines esc 0 t)"
    using writexml_unlines [of esc 0 t] by simp
  ultimately show ?thesis
    by (simp add: header_stripped strip_layout layout_def)
qed













section \<open>Calling the root\<close>

text \<open>
  C3, as the code has it. On a fresh root named \<open>r\<close>, the call \<^verbatim>\<open>root(**kwargs)\<close> raises
  TypeError when a keyword is \<^verbatim>\<open>self\<close>. For every other mapping it returns, leaving beside
  the root only an unattached node; the document tree of the root is then the single
  childless element \<open>r\<close> with no attribute at all, whatever the keyword arguments were;
  and when \<open>r\<close> has no \<^verbatim>\<open><\<close> and does not begin with \<^verbatim>\<open>?\<close>, the text that \<^verbatim>\<open>__str__\<close>
  returns is \<^verbatim>\<open><r/>\<close>.
\<close>

theorem root_call_adds_no_attributes:
  "(''self'' \<in> fst ` set kwargs \<longrightarrow> call [init r] 0 kwargs = Some (Inl TypeError)) \<and>
   (''self'' \<notin> fst ` set kwargs \<longrightarrow>
      call [init r] 0 kwargs = Some (Inr [init r, fresh [init r] 0 kwargs]) \<and>
      document str [init r, fresh [init r] 0 kwargs] 0 = Some (Element r [] []) \<and>
      (CHR ''<'' \<notin> set r \<and> take 1 r \<noteq> ''?'' \<longrightarrow>
         easyxml_str esc str [init r, fresh [init r] 0 kwargs] 0 = Some (''<'' @ r @ ''/>'')))"
proof -
  let ?h = "[init r, fresh [init r] 0 kwargs]"
  have c: "call_body [init r] 0 kwargs = Some ?h"
    by (simp add: call_body_def fresh_def init_def attach.simps)
  have d: "document str ?h 0 = Some (Element r [] [])"
    by (simp add: fresh_def init_def document_def set_attributes_def eval_nat_numeral)
  have t: "easyxml_str esc str ?h 0 = Some (''<'' @ r @ ''/>'')"
    if "CHR ''<'' \<notin> set r" "take 1 r \<noteq> ''?''"
  proof -
    have "clean (Element r [] [])" using that by simp
    then have "strip (re_sub (toprettyxml (\<lambda>s. []) (Element r [] [])))
        = layout (\<lambda>s. []) (Element r [] [])"
      by (intro pretty_clean) simp_all
    moreover have "toprettyxml esc (Element r [] []) = toprettyxml (\<lambda>s. []) (Element r [] [])"
      by (simp add: toprettyxml_def)
    moreover have "layout (\<lambda>s. []) (Element r [] []) = ''<'' @ r @ ''/>''"
      by (simp add: layout_def open_tag_def)
    ultimately show ?thesis by (simp add: easyxml_str_def d)
  qed
  show ?thesis using c d t by (simp add: call_def)
qed

theorem root_call_adds_no_attributes_witness:
  "''self'' \<in> fst ` set [(''self'', PyInt 1)] \<and>
   call [init ''root''] 0 [(''self'', PyInt 1)] = Some (Inl TypeError) \<and>
   ''self'' \<notin> fst ` set [(''x'', PyInt 1)] \<and>
   call [init ''root''] 0 [(''x'', PyInt 1)]
     = Some (Inr [init ''root'', fresh [init ''root''] 0 [(''x'', PyInt 1)]]) \<and>
   document py_str [init ''root'', fresh [init ''root''] 0 [(''x'', PyInt 1)]] 0
     = Some (Element ''root'' [] []) \<and>
   CHR ''<'' \<notin> set ''root'' \<and> take 1 ''root'' \<noteq> ''?'' \<and>
   easyxml_str write_data py_str [init ''root'', fresh [init ''root''] 0 [(''x'', PyInt 1)]] 0
     = Some ''<root/>''"
  using root_call_adds_no_attributes [of "[(''self'', PyInt 1)]" "''root''" py_str write_data]
    root_call_adds_no_attributes [of "[(''x'', PyInt 1)]" "''root''" py_str write_data]
  by simp

text \<open>
  C3 as stated fails: after \<^verbatim>\<open>root(x=1)\<close> on a fresh root named \<^verbatim>\<open>root\<close> the text is
  \<^verbatim>\<open><root/>\<close>, which is not the element with \<open>x="1"\<close>; and \<^verbatim>\<open>root(self=1)\<close> raises
  TypeError.
\<close>

theorem root_call_attributes_counterexample:
  "call [init ''root''] 0 [(''x'', PyInt 1)]
     = Some (Inr [init ''root'', fresh [init ''root''] 0 [(''x'', PyInt 1)]]) \<and>
   document py_str [init ''root'', fresh [init ''root''] 0 [(''x'', PyInt 1)]] 0
     = Some (Element ''root'' [] []) \<and>
   easyxml_str write_data py_str [init ''root'', fresh [init ''root''] 0 [(''x'', PyInt 1)]] 0
     = Some ''<root/>'' \<and>
   layout write_data (Element ''root'' (set_attributes py_str [(''x'', PyInt 1)]) [])
     = ''<root x='' @ [dquote] @ ''1'' @ [dquote] @ ''/>'' \<and>
   document py_str [init ''root'', fresh [init ''root''] 0 [(''x'', PyInt 1)]] 0
     \<noteq> Some (Element ''root'' (set_attributes py_str [(''x'', PyInt 1)]) []) \<and>
   easyxml_str write_data py_str [init ''root'', fresh [init ''root''] 0 [(''x'', PyInt 1)]] 0
     \<noteq> Some (layout write_data
                (Element ''root'' (set_attributes py_str [(''x'', PyInt 1)]) [])) \<and>
   call [init ''root''] 0 [(''self'', PyInt 1)] = Some (Inl TypeError)"
  by (simp add: call_def call_body_def fresh_def init_def attach.simps document_def
      set_attributes_def eval_nat_numeral easyxml_str_def toprettyxml_def xml_header_def
      strip_def isspace_def newline_def dquote_def layout_def open_tag_def write_attribute_def
      write_data_def escape_char_def decimal.simps)

section \<open>Repeated commits of one path on any store\<close>
























end
